theory Spec2Isabelle
  imports Complex_Main "HOL-Library.Product_Lexorder"
begin

section \<open>Sums of two squares: the program\<close>

text \<open>
  The program is \<^verbatim>\<open>sums_of_two_squares.py\<close>. Python integers are unbounded and are
  modelled by \<^typ>\<open>int\<close>; Python's \<^verbatim>\<open>%\<close> and \<^verbatim>\<open>//\<close> are floor division, which is
  \<^term>\<open>(mod)\<close> and \<^term>\<open>(div)\<close> on \<^typ>\<open>int\<close>. Exponents of a factorization are
  positive and are modelled by \<^typ>\<open>nat\<close>. Exceptions are values of the type \<open>error\<close>.
\<close>

datatype error = ValueError | TypeError | ZeroDivisionError | KeyError

type_synonym rep = "int \<times> int"

subsection \<open>The number-theory library the program calls\<close>

text \<open>
  \<^verbatim>\<open>divisors\<close>, \<^verbatim>\<open>factorint\<close>, \<^verbatim>\<open>primerange\<close> and \<^verbatim>\<open>sqrt\<close> come from sympy. They are
  modelled by what they compute: the increasing list of positive divisors (empty for 0),
  the prime factorization as an increasing list of (prime, exponent), the increasing
  primes of a half-open range, and exact comparisons with a square root.
\<close>

definition isprime :: "int \<Rightarrow> bool" where
  "isprime p \<longleftrightarrow> 1 < p \<and> (\<forall>d \<in> {2..<p}. \<not> d dvd p)"

definition divisors :: "int \<Rightarrow> int list" where
  "divisors n = filter (\<lambda>d. d dvd n) [1..n]"

function divide_out :: "int \<Rightarrow> int \<Rightarrow> nat \<times> int" where
  "divide_out p n =
     (if 2 \<le> p \<and> 0 < n \<and> p dvd n
      then (case divide_out p (n div p) of (e, m) \<Rightarrow> (Suc e, m))
      else (0, n))"
  by pat_completeness auto
termination
  by (relation "measure (\<lambda>(p, n). nat n)") (auto simp: int_div_less_self)

declare divide_out.simps [simp del]

lemma div_pos_of_dvd:
  assumes "2 \<le> p" "0 < n" "p dvd n" shows "0 < n div (p::int)"
proof -
  from assms(3) obtain k where k: "n = p * k" by (rule dvdE)
  with assms have "0 < k" by (simp add: zero_less_mult_iff)
  with k assms show ?thesis by simp
qed

lemma divide_out_le: "0 < n \<Longrightarrow> snd (divide_out p n) \<le> n"
proof (induction p n rule: divide_out.induct)
  case (1 p n)
  show ?case
  proof (cases "2 \<le> p \<and> 0 < n \<and> p dvd n")
    case True
    then have lt: "n div p < n" by (simp add: int_div_less_self)
    from True have pos: "0 < n div p" by (simp add: div_pos_of_dvd)
    from "1.IH" [OF True pos] lt True show ?thesis
      by (subst divide_out.simps) (auto split: prod.splits)
  next
    case False
    then show ?thesis by (subst divide_out.simps) auto
  qed
qed

lemma factor_from_aux: "\<not> (d < 2 \<or> n < 2) \<Longrightarrow> \<not> n < d * d \<Longrightarrow> d < (n::int)"
proof -
  assume a: "\<not> (d < 2 \<or> n < 2)" "\<not> n < d * d"
  have "d * 2 \<le> d * d" using a(1) by (intro mult_left_mono) auto
  then show "d < n" using a by linarith
qed

lemma divide_out_le': "divide_out d n = (e, m) \<Longrightarrow> 0 < n \<Longrightarrow> m \<le> n"
  using divide_out_le [of n d] by simp

function factor_from :: "int \<Rightarrow> int \<Rightarrow> (int \<times> nat) list" where
  "factor_from d n =
     (if d < 2 \<or> n < 2 then []
      else if n < d * d then [(n, 1)]
      else if d dvd n
        then (case divide_out d n of (e, m) \<Rightarrow> (d, e) # factor_from (d + 1) m)
      else factor_from (d + 1) n)"
  by pat_completeness auto
termination
proof (relation "measure (\<lambda>(d, n). nat (n - d))", goal_cases)
  case 1
  show ?case by simp
next
  case (2 d n e m)
  then have dn: "d < n" using factor_from_aux by blast
  have "m \<le> n" using 2 divide_out_le' [of d n e m] by auto
  then show ?case using dn by simp
next
  case (3 d n)
  then have dn: "d < n" using factor_from_aux by blast
  then show ?case by simp
qed

declare factor_from.simps [simp del]

definition factorint :: "int \<Rightarrow> (int \<times> nat) list" where
  "factorint n = factor_from 2 n"

text \<open>
  The bounds the program hands to \<^verbatim>\<open>primerange\<close> are the symbolic numbers \<^verbatim>\<open>0\<close> and
  \<^verbatim>\<open>sqrt(x) + 1\<close>. Comparing an integer with them is exact in sympy: for integers
  \<open>q \<ge> 1\<close> and \<open>x \<ge> 0\<close>, \<open>q < sqrt(x) + 1\<close> is \<open>(q - 1)\<^sup>2 < x\<close>, and for \<open>a \<ge> 0\<close>,
  \<open>a \<ge> sqrt(p)\<close> is \<open>p \<le> a\<^sup>2\<close>.
\<close>

datatype bound = Zero | Sqrt_plus_one int

fun bound_less :: "bound \<Rightarrow> bound \<Rightarrow> bool" where
  "bound_less Zero Zero = False"
| "bound_less Zero (Sqrt_plus_one y) = True"
| "bound_less (Sqrt_plus_one x) Zero = False"
| "bound_less (Sqrt_plus_one x) (Sqrt_plus_one y) = (x < y)"

fun max_bound :: "bound list \<Rightarrow> bound" where
  "max_bound [] = Zero"
| "max_bound (b # bs) = foldl (\<lambda>m c. if bound_less m c then c else m) b bs"

definition lt_sqrt_plus_one :: "int \<Rightarrow> int \<Rightarrow> bool" where
  "lt_sqrt_plus_one q x \<longleftrightarrow> q < 1 \<or> (q - 1) * (q - 1) < x"

definition ge_sqrt :: "int \<Rightarrow> int \<Rightarrow> bool" where
  "ge_sqrt a p \<longleftrightarrow> 0 \<le> a \<and> p \<le> a * a"

lemma lt_sqrt_plus_one_le: "1 \<le> q \<Longrightarrow> lt_sqrt_plus_one q x \<Longrightarrow> q \<le> x"
proof -
  assume a: "1 \<le> q" "lt_sqrt_plus_one q x"
  then have lt: "(q - 1) * (q - 1) < x" by (auto simp: lt_sqrt_plus_one_def)
  have "q - 1 \<le> (q - 1) * (q - 1)"
  proof (cases "q = 1")
    case True
    then show ?thesis by simp
  next
    case False
    with a have "1 \<le> q - 1" by simp
    then have "1 * (q - 1) \<le> (q - 1) * (q - 1)" by (intro mult_right_mono) auto
    then show ?thesis by simp
  qed
  with lt show "q \<le> x" by linarith
qed

function primes_upto_sqrt :: "int \<Rightarrow> int \<Rightarrow> int list" where
  "primes_upto_sqrt q x =
     (if 1 \<le> q \<and> lt_sqrt_plus_one q x
      then (if isprime q then q # primes_upto_sqrt (q + 1) x else primes_upto_sqrt (q + 1) x)
      else [])"
  by pat_completeness auto
termination
  by (relation "measure (\<lambda>(q, x). nat (x + 1 - q))") (auto dest: lt_sqrt_plus_one_le)

declare primes_upto_sqrt.simps [simp del]

fun primerange :: "int \<Rightarrow> bound \<Rightarrow> int list" where
  "primerange a Zero = []"
| "primerange a (Sqrt_plus_one x) = primes_upto_sqrt (max a 1) x"

subsection \<open>RepresentationCounter\<close>

text \<open>
  \<^verbatim>\<open>d4 = [0] * 4; for d in divisors(n): d4[d % 4] += 1\<close>: the list \<open>d4\<close> is updated at
  the index \<open>d mod 4\<close>, which is always in range.
\<close>

definition count_mod4 :: "int list \<Rightarrow> int list" where
  "count_mod4 ds = foldl (\<lambda>d4 d. d4[nat (d mod 4) := d4 ! nat (d mod 4) + 1]) [0, 0, 0, 0] ds"

definition r_2 :: "int \<Rightarrow> int" where
  "r_2 n = (let d4 = count_mod4 (divisors n) in if n \<noteq> 0 then 4 * (d4 ! 1 - d4 ! 3) else 1)"

subsection \<open>QuadraticNonresidueFinder\<close>

text \<open>
  The candidates are a generator: the \<^verbatim>\<open>for\<close> loop consumes it up to and including the
  element it returns at, and a later search continues after that element. The model
  returns the remaining candidates next to the result; \<open>None\<close> as a result is Python's
  \<^verbatim>\<open>None\<close>, returned when the loop ends without a \<^verbatim>\<open>return\<close>.
\<close>

fun search_candidates :: "int \<Rightarrow> int list \<Rightarrow> int option \<times> int list" where
  "search_candidates p [] = (None, [])"
| "search_candidates p (q # qs) =
     (if (p mod q) ^ nat ((q - 1) div 2) mod q = q - 1 then (Some q, qs)
      else search_candidates p qs)"

definition find_quadratic_nonresidue :: "int \<Rightarrow> int list option \<Rightarrow> int option \<times> int list option" where
  "find_quadratic_nonresidue p candidates =
     (if p mod 8 = 5 then (Some 2, candidates)
      else if p mod 3 = 2 then (Some 3, candidates)
      else if p mod 8 = 1 then
        (case candidates of
           None \<Rightarrow> (fst (search_candidates p (primerange 5 (Sqrt_plus_one p))), None)
         | Some qs \<Rightarrow> (case search_candidates p qs of (g, rest) \<Rightarrow> (g, Some rest)))
      else (None, candidates))"

subsection \<open>Composer and PrimePowerExpander\<close>

definition sorted_pair :: "int \<Rightarrow> int \<Rightarrow> rep" where
  "sorted_pair x y = (if x \<le> y then (x, y) else (y, x))"

definition rep_prod :: "int \<Rightarrow> int \<Rightarrow> int \<Rightarrow> int \<Rightarrow> rep list" where
  "rep_prod a b c d =
     (let s0 = sorted_pair \<bar>a * c + b * d\<bar> \<bar>a * d - b * c\<bar>;
          s1 = sorted_pair \<bar>a * c - b * d\<bar> \<bar>a * d + b * c\<bar>
      in if s0 \<noteq> s1 then [s0, s1] else [s0])"

text \<open>
  In \<^verbatim>\<open>rep_prime_power\<close> the assignment \<^verbatim>\<open>rep_p = new_rep\<close> stands inside the inner loop.
  The loop iterates over the list \<open>rep_p\<close> named when it started; the state it updates is
  the pair (\<open>new_rep\<close>, \<open>rep_p\<close>).
\<close>

fun power_step :: "rep \<Rightarrow> rep list \<Rightarrow> rep list \<times> rep list \<Rightarrow> rep list \<times> rep list" where
  "power_step r0 [] (new_rep, rep_p) = (new_rep, rep_p)"
| "power_step r0 (r # rs) (new_rep, rep_p) =
     (let new_rep' = new_rep @ rep_prod (fst r) (snd r) (fst r0) (snd r0)
      in power_step r0 rs (new_rep', new_rep'))"

fun power_loop :: "rep \<Rightarrow> nat \<Rightarrow> rep list \<Rightarrow> rep list" where
  "power_loop r0 0 rep_p = rep_p"
| "power_loop r0 (Suc i) rep_p = power_loop r0 i (snd (power_step r0 rep_p ([], rep_p)))"

definition rep_prime_power :: "rep \<Rightarrow> nat \<Rightarrow> rep list" where
  "rep_prime_power representation_of_p n = power_loop representation_of_p (n - 1) [representation_of_p]"

subsection \<open>PrimeRepresentationSolver and RepresentationAssembler\<close>

function descent :: "int \<Rightarrow> int \<Rightarrow> int \<Rightarrow> error + rep" where
  "descent p a b =
     (if ge_sqrt a p
      then (if b = 0 then Inl ZeroDivisionError else descent p b (a mod b))
      else Inr (a, b))"
  by pat_completeness auto
termination
  by (relation "measure (\<lambda>(p, a, b). nat \<bar>b\<bar>)") (auto simp: abs_mod_less)

declare descent.simps [simp del]

text \<open>
  The divisors of the moduli the loop evaluates, in order: the trace of \<open>descent\<close>. A
  divisor 0 is listed, and is where the loop raises \<^verbatim>\<open>ZeroDivisionError\<close>.
\<close>

function descent_divisors :: "int \<Rightarrow> int \<Rightarrow> int \<Rightarrow> int list" where
  "descent_divisors p a b =
     (if ge_sqrt a p
      then b # (if b = 0 then [] else descent_divisors p b (a mod b))
      else [])"
  by pat_completeness auto
termination
  by (relation "measure (\<lambda>(p, a, b). nat \<bar>b\<bar>)") (auto simp: abs_mod_less)

declare descent_divisors.simps [simp del]

subsection \<open>Notions the properties are stated with\<close>

text \<open>
  \<open>g\<close> is a quadratic non-residue of \<open>p\<close> when no \<open>y\<close> has \<open>y\<^sup>2 \<equiv> g (mod p)\<close>; it is enough
  to look at \<open>0 \<le> y < p\<close>.
\<close>

definition quadratic_nonresidue :: "int \<Rightarrow> int \<Rightarrow> bool" where
  "quadratic_nonresidue g p \<longleftrightarrow> (\<forall>y \<in> set [0..p - 1]. \<not> p dvd y * y - g)"

text \<open>
  The invariant of the loop of \<open>descent\<close> started at \<open>(p, x)\<close>. The pair \<open>(a, b)\<close> are two
  consecutive remainders, \<open>u\<close> and \<open>v\<close> the absolute values of their cofactors of \<open>x\<close>
  modulo \<open>p\<close>, \<open>s\<close> the sign of the first, and \<open>(a0, u0)\<close> the remainder and cofactor
  before them.
\<close>

definition descent_inv :: "int \<Rightarrow> int \<Rightarrow> int \<Rightarrow> int \<Rightarrow> int \<Rightarrow> int \<Rightarrow> int \<Rightarrow> bool" where
  "descent_inv p x a b u v s \<longleftrightarrow>
     0 \<le> b \<and> b < a \<and> 0 \<le> u \<and> u \<le> v \<and> 0 < v \<and> u * b + v * a = p \<and>
     s * s = 1 \<and> p dvd a - s * u * x \<and> p dvd b + s * v * x \<and>
     (\<exists>a0 u0. 0 \<le> u0 \<and> 0 \<le> a0 \<and> p \<le> a0 * a0 \<and> u0 * a + u * a0 = p)"

datatype loop_result = Raised error | Returned "int \<times> rep list" | Completed "int \<rightharpoonup> rep"

fun prime_loop :: "(int \<times> nat) list \<Rightarrow> int list option \<Rightarrow> (int \<rightharpoonup> rep) \<Rightarrow> loop_result" where
  "prime_loop [] candidates prime_reps = Completed prime_reps"
| "prime_loop ((p, e) # fac) candidates prime_reps =
     (if p mod 4 = 3 then
        (if odd e then Returned (0, [])
         else prime_loop fac candidates (prime_reps(p \<mapsto> (0, p ^ (e div 2)))))
      else if p mod 4 = 1 then
        (case find_quadratic_nonresidue p candidates of
           (None, candidates') \<Rightarrow> Raised TypeError
         | (Some g, candidates') \<Rightarrow>
             (case descent p p (g ^ nat ((p - 1) div 4) mod p) of
                Inl err \<Rightarrow> Raised err
              | Inr ab \<Rightarrow> prime_loop fac candidates' (prime_reps(p \<mapsto> ab))))
      else prime_loop fac candidates prime_reps)"

definition compose_all :: "rep list \<Rightarrow> rep list \<Rightarrow> rep list" where
  "compose_all reps reps_p =
     concat (map (\<lambda>(r1, r2). rep_prod (fst r1) (snd r1) (fst r2) (snd r2)) (List.product reps reps_p))"

fun assemble :: "(int \<times> nat) list \<Rightarrow> (int \<rightharpoonup> rep) \<Rightarrow> rep list \<Rightarrow> error + rep list" where
  "assemble [] prime_reps reps = Inr reps"
| "assemble ((p, e) # fac) prime_reps reps =
     (if p mod 4 = 3 then
        (case prime_reps p of
           None \<Rightarrow> Inl KeyError
         | Some r0 \<Rightarrow>
             assemble fac prime_reps
               (concat (map (\<lambda>r. rep_prod (fst r) (snd r) (fst r0) (snd r0)) reps)))
      else if p = 2 \<or> p mod 4 = 1 then
        (case prime_reps p of
           None \<Rightarrow> Inl KeyError
         | Some r0 \<Rightarrow> assemble fac prime_reps (compose_all reps (rep_prime_power r0 e)))
      else assemble fac prime_reps reps)"

text \<open>
  The candidates of the main function are the one generator
  \<^verbatim>\<open>primerange(5, max([sqrt(x) + 1 if x % 8 == 1 else 0 for x in fac]))\<close>, handed to every
  search. The last line sorts the set of the representations; tuples compare
  lexicographically.
\<close>

definition shared_candidates :: "(int \<times> nat) list \<Rightarrow> int list" where
  "shared_candidates fac =
     primerange 5 (max_bound (map (\<lambda>(x, e). if x mod 8 = 1 then Sqrt_plus_one x else Zero) fac))"

definition count_formula :: "(int \<times> nat) list \<Rightarrow> int" where
  "count_formula fac = 4 * prod_list (map (\<lambda>(p, e). if p mod 4 = 1 then int e + 1 else 1) fac)"

definition sum_of_two_squares :: "int \<Rightarrow> error + (int \<times> rep list)" where
  "sum_of_two_squares n =
     (if n < 0 then Inl ValueError
      else if n = 0 then Inr (1, [(0, 0)])
      else if n = 1 then Inr (4, [(0, 1)])
      else
        (let fac = factorint n;
             r2 = count_formula fac;
             candidates = shared_candidates fac
         in case prime_loop fac (Some candidates) [2 \<mapsto> (1, 1)] of
              Raised err \<Rightarrow> Inl err
            | Returned res \<Rightarrow> Inr res
            | Completed prime_reps \<Rightarrow>
                (case assemble fac prime_reps [(0, 1)] of
                   Inl err \<Rightarrow> Inl err
                 | Inr reps \<Rightarrow> Inr (r2, sort (remdups reps)))))"

text \<open>
  The same function with every search on its own fresh sequence
  \<^verbatim>\<open>primerange(5, sqrt(p) + 1)\<close>, which is what \<^verbatim>\<open>find_quadratic_nonresidue(p, None)\<close>
  does. It is not in the program; it is the reading of the candidates as a cache.
\<close>

definition sum_of_two_squares_fresh :: "int \<Rightarrow> error + (int \<times> rep list)" where
  "sum_of_two_squares_fresh n =
     (if n < 0 then Inl ValueError
      else if n = 0 then Inr (1, [(0, 0)])
      else if n = 1 then Inr (4, [(0, 1)])
      else
        (let fac = factorint n;
             r2 = count_formula fac
         in case prime_loop fac None [2 \<mapsto> (1, 1)] of
              Raised err \<Rightarrow> Inl err
            | Returned res \<Rightarrow> Inr res
            | Completed prime_reps \<Rightarrow>
                (case assemble fac prime_reps [(0, 1)] of
                   Inl err \<Rightarrow> Inl err
                 | Inr reps \<Rightarrow> Inr (r2, sort (remdups reps)))))"

section \<open>The program on concrete inputs\<close>

text \<open>
  \<open>34472881 = 241 \<sqdot> 313 \<sqdot> 457\<close> has three prime factors congruent to 1 modulo 24. The
  shared candidates are \<open>[5, 7, 11, 13, 17, 19]\<close>: the search for 241 consumes 5 and 7,
  the search for 313 consumes 11, 13 and 17, and the search for 457 is left with 19, which
  is a quadratic residue of 457. The search returns \<^verbatim>\<open>None\<close> and \<^verbatim>\<open>pow(None, 114)\<close> raises
  \<^verbatim>\<open>TypeError\<close>. On a fresh sequence the search for 457 returns 5.
\<close>

lemma factorint_34472881: "factorint 34472881 = [(241, 1), (313, 1), (457, 1)]"
  by code_simp

lemma sum_of_two_squares_34472881: "sum_of_two_squares 34472881 = Inl TypeError"
  by code_simp

lemma sum_of_two_squares_fresh_34472881:
  "sum_of_two_squares_fresh 34472881 =
     Inr (32, [(1716, 5615), (2159, 5460), (3660, 4591), (4015, 4284)])"
  by code_simp

lemma sum_of_two_squares_15960943903: "sum_of_two_squares 15960943903 = Inl TypeError"
  by code_simp

lemma factorint_15960943903:
  "factorint 15960943903 = [(241, 1), (313, 1), (457, 1), (463, 1)]"
  by code_simp

section \<open>Composer\<close>

text \<open>
  C5: for all integers \<open>a b c d\<close>, every pair \<open>(x, y)\<close> of \<open>rep_prod a b c d\<close> has \<open>x \<le> y\<close>
  and \<open>x\<^sup>2 + y\<^sup>2 = (a\<^sup>2 + b\<^sup>2) (c\<^sup>2 + d\<^sup>2)\<close>, and the result is the two sorted pairs of
  \<open>(|ac + bd|, |ad - bc|)\<close> and \<open>(|ac - bd|, |ad + bc|)\<close> when they differ and one of them
  when they coincide.
\<close>

theorem rep_prod_sound:
  "(\<forall>(x, y) \<in> set (rep_prod a b c d).
      x \<le> y \<and> x * x + y * y = (a * a + b * b) * (c * c + d * d)) \<and>
   rep_prod a b c d =
     (let s0 = (min \<bar>a * c + b * d\<bar> \<bar>a * d - b * c\<bar>, max \<bar>a * c + b * d\<bar> \<bar>a * d - b * c\<bar>);
          s1 = (min \<bar>a * c - b * d\<bar> \<bar>a * d + b * c\<bar>, max \<bar>a * c - b * d\<bar> \<bar>a * d + b * c\<bar>)
      in if s0 = s1 then [s0] else [s0, s1])"
proof -
  have sp: "sorted_pair x y = (min x y, max x y)" for x y
    by (auto simp: sorted_pair_def min_def max_def)
  have sq: "min x y * min x y + max x y * max x y = x * x + y * y" for x y :: int
    by (auto simp: min_def max_def)
  have i0: "\<bar>a * c + b * d\<bar> * \<bar>a * c + b * d\<bar> + \<bar>a * d - b * c\<bar> * \<bar>a * d - b * c\<bar> =
      (a * a + b * b) * (c * c + d * d)"
    unfolding abs_mult_self_eq by algebra
  have i1: "\<bar>a * c - b * d\<bar> * \<bar>a * c - b * d\<bar> + \<bar>a * d + b * c\<bar> * \<bar>a * d + b * c\<bar> =
      (a * a + b * b) * (c * c + d * d)"
    unfolding abs_mult_self_eq by algebra
  have mm: "min x y \<le> max x y" for x y :: int
    by simp
  show ?thesis
    unfolding rep_prod_def Let_def sp
    using i0 i1 mm by (auto simp: sq simp del: abs_mult_self_eq)
qed

theorem rep_prod_sound_witness:
  "rep_prod 1 2 1 2 = [(0, 5), (3, 4)] \<and> (3::int) \<le> 4 \<and> (3::int) * 3 + 4 * 4 = (1 * 1 + 2 * 2) * (1 * 1 + 2 * 2)"
  using rep_prod_sound [of 1 2 1 2] by (simp add: rep_prod_def sorted_pair_def)


section \<open>The shared candidates\<close>

text \<open>
  C7: the result of \<open>sum_of_two_squares\<close> would be the same with a fresh candidate
  sequence for every search. At \<open>34472881\<close> the shared sequence runs out and the program
  raises \<^verbatim>\<open>TypeError\<close>, while fresh sequences give the four representations.
\<close>

theorem shared_candidates_differ:
  "sum_of_two_squares 34472881 = Inl TypeError \<and>
   sum_of_two_squares_fresh 34472881 =
     Inr (32, [(1716, 5615), (2159, 5460), (3660, 4591), (4015, 4284)])"
  using sum_of_two_squares_34472881 sum_of_two_squares_fresh_34472881 by simp

text \<open>
  C9: only a negative \<open>n\<close> makes \<open>sum_of_two_squares\<close> raise. At the non-negative input
  \<open>34472881\<close> the program raises, and the exception is not the \<^verbatim>\<open>ValueError\<close> of the
  input check.
\<close>

theorem nonnegative_input_raises:
  "(0::int) \<le> 34472881 \<and> isl (sum_of_two_squares 34472881) \<and>
   sum_of_two_squares 34472881 \<noteq> Inl ValueError"
  using sum_of_two_squares_34472881 by simp

text \<open>
  C1: the list returned for \<open>n\<close> holds every pair \<open>a \<le> b\<close> with \<open>a\<^sup>2 + b\<^sup>2 = n\<close>. The
  number \<open>34472881\<close> is \<open>1716\<^sup>2 + 5615\<^sup>2\<close>, and the program returns no list for it.
\<close>

theorem representation_not_returned:
  "(0::int) \<le> 1716 \<and> (1716::int) \<le> 5615 \<and> (1716::int) * 1716 + 5615 * 5615 = 34472881 \<and>
   (\<forall>r. sum_of_two_squares 34472881 \<noteq> Inr r)"
  using sum_of_two_squares_34472881 by simp

text \<open>
  C2: the count returned is \<open>r_2 n\<close>. At \<open>34472881\<close> the formula of the assembler gives
  \<open>4 \<sqdot> 2 \<sqdot> 2 \<sqdot> 2 = 32\<close>, and the program raises before it returns it.
\<close>

theorem count_not_returned:
  "count_formula (factorint 34472881) = 32 \<and> sum_of_two_squares 34472881 = Inl TypeError"
  using sum_of_two_squares_34472881 by (simp add: factorint_34472881 count_formula_def)

text \<open>
  C3: the program returns count 0 and the empty list when a prime congruent to 3 modulo 4
  has an odd exponent, and a non-empty list otherwise. In \<open>34472881\<close> no prime factor is
  congruent to 3 modulo 4, and in \<open>15960943903 = 34472881 \<sqdot> 463\<close> the prime 463 is, with
  exponent 1; the program raises on both.
\<close>

theorem feasibility_gate_raises:
  "factorint 34472881 = [(241, 1), (313, 1), (457, 1)] \<and>
   (241::int) mod 4 = 1 \<and> (313::int) mod 4 = 1 \<and> (457::int) mod 4 = 1 \<and>
   sum_of_two_squares 34472881 = Inl TypeError \<and>
   factorint 15960943903 = [(241, 1), (313, 1), (457, 1), (463, 1)] \<and>
   (463::int) mod 4 = 3 \<and> sum_of_two_squares 15960943903 = Inl TypeError"
  using sum_of_two_squares_34472881 sum_of_two_squares_15960943903
  by (simp add: factorint_34472881 factorint_15960943903)

section \<open>Primes, Wilson's theorem and Euler's criterion\<close>

lemma isprime_iff:
  "isprime p \<longleftrightarrow> 1 < p \<and> (\<forall>d. 0 < d \<longrightarrow> d dvd p \<longrightarrow> d = 1 \<or> d = p)"
proof
  assume p: "isprime p"
  then have p1: "1 < p" and nd: "\<And>d. 2 \<le> d \<Longrightarrow> d < p \<Longrightarrow> \<not> d dvd p"
    by (auto simp: isprime_def)
  have "d = 1 \<or> d = p" if "0 < d" "d dvd p" for d
  proof -
    have "d \<le> p" using that p1 by (intro zdvd_imp_le) auto
    with nd [of d] that show ?thesis by force
  qed
  with p1 show "1 < p \<and> (\<forall>d. 0 < d \<longrightarrow> d dvd p \<longrightarrow> d = 1 \<or> d = p)" by blast
next
  assume "1 < p \<and> (\<forall>d. 0 < d \<longrightarrow> d dvd p \<longrightarrow> d = 1 \<or> d = p)"
  then show "isprime p" by (force simp: isprime_def)
qed

lemma isprime_coprime:
  assumes "isprime p" "\<not> p dvd a" shows "coprime p a"
proof -
  let ?d = "gcd p a"
  have "0 < ?d" using assms(1) by (auto simp: isprime_def gcd_pos_int)
  moreover have "?d dvd p" by simp
  ultimately have "?d = 1 \<or> ?d = p" using assms(1) unfolding isprime_iff by blast
  moreover have "?d \<noteq> p" using assms(2) by (metis gcd_dvd2)
  ultimately show ?thesis by (simp add: coprime_iff_gcd_eq_1)
qed

lemma isprime_dvd_mult:
  assumes "isprime p" "p dvd a * b" shows "p dvd a \<or> p dvd b"
proof (cases "p dvd a")
  case True
  then show ?thesis by simp
next
  case False
  then have "coprime p a" using assms(1) by (rule isprime_coprime [rotated])
  then have "p dvd a * b \<longleftrightarrow> p dvd b" by (rule coprime_dvd_mult_right_iff)
  with assms(2) show ?thesis by simp
qed

lemma pairing_prod:
  fixes S :: "int set" and p g :: int
  assumes "finite S"
    and "\<forall>x\<in>S. f x \<in> S \<and> f (f x) = x \<and> f x \<noteq> x \<and> p dvd x * f x - g"
  shows "even (card S) \<and> p dvd \<Prod>S - g ^ (card S div 2)"
  using assms
proof (induction "card S" arbitrary: S rule: less_induct)
  case less
  show ?case
  proof (cases "S = {}")
    case True
    then show ?thesis by simp
  next
    case False
    then obtain x where x: "x \<in> S" by blast
    define y where "y = f x"
    have y: "y \<in> S" "y \<noteq> x" "f y = x" "p dvd x * y - g"
      using less.prems(2) x by (auto simp: y_def)
    define T where "T = S - {x, y}"
    have finT: "finite T" using less.prems(1) by (simp add: T_def)
    have S_eq: "S = insert x (insert y T)" using x y by (auto simp: T_def)
    have cardS: "card S = card T + 2"
      unfolding S_eq using finT y(2) by (simp add: T_def)
    have inv: "\<forall>z\<in>T. f z \<in> T \<and> f (f z) = z \<and> f z \<noteq> z \<and> p dvd z * f z - g"
    proof
      fix z assume z: "z \<in> T"
      then have zS: "z \<in> S" "z \<noteq> x" "z \<noteq> y" by (auto simp: T_def)
      have fz: "f z \<in> S" "f (f z) = z" "f z \<noteq> z" "p dvd z * f z - g"
        using less.prems(2) zS by auto
      have "f z \<noteq> x" using fz(2) zS y_def by auto
      moreover have "f z \<noteq> y" using fz(2) zS y(3) by auto
      ultimately show "f z \<in> T \<and> f (f z) = z \<and> f z \<noteq> z \<and> p dvd z * f z - g"
        using fz by (simp add: T_def)
    qed
    have IH: "even (card T) \<and> p dvd \<Prod>T - g ^ (card T div 2)"
      using less.hyps [of T] cardS finT inv by simp
    have prodS: "\<Prod>S = x * (y * \<Prod>T)"
      unfolding S_eq using finT y(2) by (simp add: T_def)
    have half: "card S div 2 = Suc (card T div 2)" using cardS by simp
    have split: "x * (y * \<Prod>T) - g * g ^ (card T div 2) =
        (x * y - g) * \<Prod>T + g * (\<Prod>T - g ^ (card T div 2))"
      by (simp add: algebra_simps)
    have "p dvd x * (y * \<Prod>T) - g * g ^ (card T div 2)"
      unfolding split using y(4) IH by (intro dvd_add dvd_mult2 dvd_mult) auto
    then show ?thesis using IH cardS prodS half by simp
  qed
qed

lemma partner_exists:
  assumes p: "isprime p" and x: "\<not> p dvd x" and g: "\<not> p dvd g"
  shows "\<exists>y. 1 \<le> y \<and> y < p \<and> p dvd x * y - g"
proof -
  have p1: "1 < p" using p by (simp add: isprime_def)
  have "coprime p x" using p x by (rule isprime_coprime)
  then have "gcd p x = 1" by (simp add: coprime_iff_gcd_eq_1)
  then obtain u v where uv: "u * p + v * x = 1" using bezout_int [of p x] by auto
  define y where "y = (v * g) mod p"
  have "x * (v * g) - g = (v * x - 1) * g" by (simp add: algebra_simps)
  also have "v * x - 1 = - u * p" using uv by simp
  finally have "p dvd x * (v * g) - g" by simp
  moreover have "x * (v * g) - x * y = p * (x * ((v * g) div p))"
    unfolding y_def by (simp add: right_diff_distrib [symmetric] minus_mod_eq_mult_div)
  then have "p dvd x * (v * g) - x * y" by simp
  ultimately have "p dvd (x * (v * g) - g) - (x * (v * g) - x * y)" by (rule dvd_diff)
  then have d: "p dvd x * y - g" by simp
  have y0: "0 \<le> y" "y < p" using p1 by (simp_all add: y_def)
  have "y \<noteq> 0"
  proof
    assume "y = 0"
    with d have "p dvd - g" by simp
    with g show False by simp
  qed
  with y0 d show ?thesis by (intro exI [of _ y]) auto
qed

lemma small_multiple_zero:
  fixes p d :: int
  assumes "p dvd d" "\<bar>d\<bar> < p" shows "d = 0"
proof (rule ccontr)
  assume "d \<noteq> 0"
  then have "\<bar>p\<bar> \<le> \<bar>d\<bar>" using assms(1) by (rule dvd_imp_le_int)
  with assms(2) show False by linarith
qed

lemma partner_unique:
  assumes p: "isprime p" and x: "\<not> p dvd x"
    and y: "0 \<le> y" "y < p" "p dvd x * y - g"
    and z: "0 \<le> z" "z < p" "p dvd x * z - g"
  shows "y = z"
proof -
  have "p dvd (x * y - g) - (x * z - g)" using y(3) z(3) by (rule dvd_diff)
  then have "p dvd x * (y - z)" by (simp add: algebra_simps)
  then have "p dvd y - z" using isprime_dvd_mult [OF p] x by blast
  moreover have "\<bar>y - z\<bar> < p" using y z by linarith
  ultimately have "y - z = 0" by (rule small_multiple_zero)
  then show ?thesis by simp
qed

lemma range_not_dvd:
  fixes p x :: int
  assumes "1 \<le> x" "x < p" shows "\<not> p dvd x"
  using assms by (auto dest: zdvd_imp_le)

lemma prod_by_pairs:
  fixes S :: "int set"
  assumes p: "isprime p" and g: "\<not> p dvd g" and S: "S \<subseteq> {1..p - 1}"
    and closed: "\<And>x y. x \<in> S \<Longrightarrow> 1 \<le> y \<Longrightarrow> y < p \<Longrightarrow> p dvd x * y - g \<Longrightarrow> y \<in> S \<and> y \<noteq> x"
  shows "even (card S) \<and> p dvd \<Prod>S - g ^ (card S div 2)"
proof -
  have nd: "\<not> p dvd x" if "x \<in> S" for x
    using that S by (intro range_not_dvd) auto
  have "\<forall>x\<in>S. \<exists>y. 1 \<le> y \<and> y < p \<and> p dvd x * y - g"
    using partner_exists [OF p _ g] nd by blast
  from bchoice [OF this]
  obtain f where f: "\<And>x. x \<in> S \<Longrightarrow> 1 \<le> f x \<and> f x < p \<and> p dvd x * f x - g"
    by blast
  have "\<forall>x\<in>S. f x \<in> S \<and> f (f x) = x \<and> f x \<noteq> x \<and> p dvd x * f x - g"
  proof
    fix x assume x: "x \<in> S"
    have fx: "1 \<le> f x" "f x < p" "p dvd x * f x - g" using f [OF x] by auto
    have fxS: "f x \<in> S" "f x \<noteq> x" using closed [OF x fx] by auto
    have ffx: "1 \<le> f (f x)" "f (f x) < p" "p dvd f x * f (f x) - g" using f [OF fxS(1)] by auto
    have xr: "1 \<le> x" "x < p" using x S by auto
    have "p dvd f x * x - g" using fx(3) by (simp add: mult.commute)
    then have "f (f x) = x"
      using partner_unique [OF p nd [OF fxS(1)], of "f (f x)" g x] ffx xr by simp
    with fxS fx show "f x \<in> S \<and> f (f x) = x \<and> f x \<noteq> x \<and> p dvd x * f x - g" by simp
  qed
  moreover have "finite S" using S by (rule finite_subset) simp
  ultimately show ?thesis by (rule pairing_prod [rotated])
qed

lemma wilson:
  assumes p: "isprime p" and p3: "3 \<le> p"
  shows "p dvd \<Prod>{1..p - 1} + 1"
proof -
  have g: "\<not> p dvd 1" using p3 by (auto dest: zdvd_imp_le)
  have "even (card {2..p - 2}) \<and> p dvd \<Prod>{2..p - 2} - 1 ^ (card {2..p - 2} div 2)"
  proof (rule prod_by_pairs [OF p g])
    show "{2..p - 2} \<subseteq> {1..p - 1}" by auto
  next
    fix x y :: int
    assume x: "x \<in> {2..p - 2}" and y: "1 \<le> y" "y < p" and d: "p dvd x * y - 1"
    have n1: "\<not> p dvd x - 1" using x by (intro range_not_dvd) auto
    have n2: "\<not> p dvd x + 1" using x by (intro range_not_dvd) auto
    have "y \<noteq> 1" using d n1 by auto
    moreover have "y \<noteq> p - 1"
    proof
      assume "y = p - 1"
      with d have "p dvd x * (p - 1) - 1" by simp
      moreover have "x * (p - 1) - 1 = p * x - (x + 1)" by (simp add: algebra_simps)
      ultimately have A: "p dvd p * x - (x + 1)" by (simp only:)
      have e: "x + 1 = p * x - (p * x - (x + 1))" by simp
      have "p dvd x + 1" by (subst e) (rule dvd_diff [OF dvd_triv_left A])
      with n2 show False by simp
    qed
    moreover have "y \<noteq> x"
    proof
      assume "y = x"
      then have "x * y - 1 = (x - 1) * (x + 1)" by (simp add: algebra_simps)
      with d have "p dvd (x - 1) * (x + 1)" by simp
      with isprime_dvd_mult [OF p] n1 n2 show False by blast
    qed
    ultimately show "y \<in> {2..p - 2} \<and> y \<noteq> x" using y by auto
  qed
  then have m: "p dvd \<Prod>{2..p - 2} - 1" by simp
  have set_eq: "{1..p - 1} = insert 1 (insert (p - 1) {2..p - 2})" using p3 by auto
  have "\<Prod>{1..p - 1} = (p - 1) * \<Prod>{2..p - 2}"
    unfolding set_eq using p3 by simp
  then have e2: "\<Prod>{1..p - 1} + 1 = p * \<Prod>{2..p - 2} - (\<Prod>{2..p - 2} - 1)"
    by (simp add: algebra_simps)
  show ?thesis unfolding e2 by (rule dvd_diff [OF dvd_triv_left m])
qed

lemma dvd_mod_square:
  fixes p y g :: int
  shows "p dvd y * y - g \<longleftrightarrow> p dvd (y mod p) * (y mod p) - g"
proof -
  have "(y * y - g) mod p = ((y mod p) * (y mod p) - g) mod p"
    by (metis mod_diff_left_eq mod_mult_eq)
  then show ?thesis by (simp add: dvd_eq_mod_eq_0)
qed

lemma nonresidue_no_root:
  assumes "quadratic_nonresidue g p" "0 < p"
  shows "\<not> p dvd y * y - g"
proof -
  have "y mod p \<in> set [0..p - 1]" using assms(2) by simp
  then have "\<not> p dvd (y mod p) * (y mod p) - g"
    using assms(1) unfolding quadratic_nonresidue_def by blast
  then show ?thesis by (subst dvd_mod_square)
qed

lemma euler_nonresidue:
  assumes p: "isprime p" and p3: "3 \<le> p" and g: "quadratic_nonresidue g p"
  shows "p dvd g ^ nat ((p - 1) div 2) + 1"
proof -
  have p0: "0 < p" using p3 by simp
  have "\<not> p dvd 0 * 0 - g" using g p0 by (rule nonresidue_no_root)
  then have ng: "\<not> p dvd g" by simp
  have "even (card {1..p - 1}) \<and> p dvd \<Prod>{1..p - 1} - g ^ (card {1..p - 1} div 2)"
  proof (rule prod_by_pairs [OF p ng])
    show "{1..p - 1} \<subseteq> {1..p - 1}" by simp
  next
    fix x y :: int
    assume "x \<in> {1..p - 1}" "1 \<le> y" "y < p" "p dvd x * y - g"
    moreover have "\<not> p dvd x * x - g" using g p0 by (rule nonresidue_no_root)
    ultimately show "y \<in> {1..p - 1} \<and> y \<noteq> x" by auto
  qed
  moreover have "card {1..p - 1} div 2 = nat ((p - 1) div 2)"
    using p3 by (simp add: nat_div_distrib)
  ultimately have a: "p dvd \<Prod>{1..p - 1} - g ^ nat ((p - 1) div 2)" by simp
  have b: "p dvd \<Prod>{1..p - 1} + 1" using p p3 by (rule wilson)
  have e: "g ^ nat ((p - 1) div 2) + 1 =
      (\<Prod>{1..p - 1} + 1) - (\<Prod>{1..p - 1} - g ^ nat ((p - 1) div 2))" by simp
  show ?thesis by (subst e) (rule dvd_diff [OF b a])
qed

lemma sqrt_minus_one:
  assumes p: "isprime p" and p4: "p mod 4 = 1" and g: "quadratic_nonresidue g p"
  defines "x \<equiv> g ^ nat ((p - 1) div 4) mod p"
  shows "p dvd x * x + 1" "0 < x" "x < p"
proof -
  have p1: "1 < p" using p by (simp add: isprime_def)
  have "p \<noteq> 2" using p4 by auto
  moreover have "p \<noteq> 1" using p1 by simp
  ultimately have p3: "3 \<le> p" using p1 by linarith
  define k where "k = nat ((p - 1) div 4)"
  have "p - 1 = 4 * ((p - 1) div 4)" using p4 by presburger
  then have "(p - 1) div 2 = 2 * ((p - 1) div 4)" by presburger
  then have "nat ((p - 1) div 2) = 2 * k"
    using p1 by (simp add: k_def nat_mult_distrib)
  then have "g ^ nat ((p - 1) div 2) = g ^ k * g ^ k"
    by (simp add: power2_eq_square [symmetric] power_mult [symmetric] mult.commute)
  with euler_nonresidue [OF p p3 g] have a: "p dvd g ^ k * g ^ k + 1" by simp
  have "(x * x + 1) mod p = (g ^ k * g ^ k + 1) mod p"
    unfolding x_def k_def [symmetric] by (metis mod_add_left_eq mod_mult_eq)
  with a show d: "p dvd x * x + 1" by (simp add: dvd_eq_mod_eq_0)
  show "x < p" using p1 by (simp add: x_def)
  have "0 \<le> x" using p1 by (simp add: x_def)
  moreover have "x \<noteq> 0"
  proof
    assume "x = 0"
    with d have "p dvd 1" by simp
    with p1 show False by (auto dest: zdvd_imp_le)
  qed
  ultimately show "0 < x" by simp
qed

section \<open>The Euclidean descent\<close>

lemma descent_inv_init:
  assumes "1 < p" "0 < x" "x < p"
  shows "descent_inv p x p x 0 1 (- 1)"
proof -
  have "p * 1 \<le> p * p" using assms(1) by (intro mult_left_mono) auto
  then have "(0::int) \<le> 1 \<and> 0 \<le> p \<and> p \<le> p * p \<and> 1 * p + 0 * p = p" using assms(1) by simp
  then have "\<exists>a0 u0::int. 0 \<le> u0 \<and> 0 \<le> a0 \<and> p \<le> a0 * a0 \<and> u0 * p + 0 * a0 = p"
    by blast
  then show ?thesis using assms by (simp add: descent_inv_def)
qed

lemma descent_inv_divisor:
  assumes p: "isprime p" and x: "0 < x" "x < p"
    and inv: "descent_inv p x a b u v s" and ge: "p \<le> a * a"
  shows "0 < b"
proof (rule ccontr)
  assume "\<not> 0 < b"
  with inv have b0: "b = 0" by (simp add: descent_inv_def)
  have p1: "1 < p" using p by (simp add: isprime_def)
  from inv b0 have va: "v * a = p" and v0: "0 < v" and a0: "0 < a" and s: "s * s = 1"
    and d: "p dvd s * v * x" by (auto simp: descent_inv_def)
  have "p dvd s * (s * v * x)" using d by (rule dvd_mult)
  then have "p dvd (s * s) * (v * x)" by (simp add: mult.assoc)
  then have "p dvd v * x" using s by simp
  moreover have "\<not> p dvd x" using x by (intro range_not_dvd) auto
  ultimately have "p dvd v" using isprime_dvd_mult [OF p] by blast
  then have "p \<le> v" using v0 by (rule zdvd_imp_le)
  then have "p * a \<le> v * a" using a0 by (intro mult_right_mono) auto
  with va have "p * a \<le> p * 1" by simp
  then have "a \<le> 1" using p1 by (simp only: mult_le_cancel_left_pos)
  with a0 have "a = 1" by simp
  with ge p1 show False by simp
qed

lemma descent_inv_step:
  assumes inv: "descent_inv p x a b u v s" and ge: "p \<le> a * a" and b: "0 < b"
  shows "descent_inv p x b (a mod b) v (u + (a div b) * v) (- s)"
proof -
  from inv have i: "0 \<le> b" "b < a" "0 \<le> u" "u \<le> v" "0 < v" "u * b + v * a = p"
    "s * s = 1" "p dvd a - s * u * x" "p dvd b + s * v * x"
    by (auto simp: descent_inv_def)
  define q where "q = a div b"
  have ab: "a mod b = a - q * b" by (simp add: q_def minus_div_mult_eq_mod)
  have "0 < a div b" using i(2) b pos_imp_zdiv_pos_iff [of b a] by simp
  then have q1: "1 \<le> q" unfolding q_def by simp
  have qv: "v \<le> q * v" using mult_right_mono [of 1 q v] q1 i(5) by simp
  have "0 \<le> a mod b" "a mod b < b" using b by simp_all
  moreover have "0 \<le> v" "v \<le> u + q * v" "0 < u + q * v" using i(3,5) qv by linarith+
  moreover have "v * (a mod b) + (u + q * v) * b = p"
    unfolding ab using i(6) by (simp add: algebra_simps)
  moreover have "- s * - s = 1" using i(7) by simp
  moreover have "p dvd b - - s * v * x" using i(9) by simp
  moreover have "p dvd a mod b + - s * (u + q * v) * x"
  proof -
    have e: "a mod b + - s * (u + q * v) * x = (a - s * u * x) - q * (b + s * v * x)"
      unfolding ab by (simp add: algebra_simps)
    show ?thesis unfolding e by (rule dvd_diff [OF i(8) dvd_mult [OF i(9)]])
  qed
  moreover have "\<exists>a0 u0. 0 \<le> u0 \<and> 0 \<le> a0 \<and> p \<le> a0 * a0 \<and> u0 * b + v * a0 = p"
    using i ge by (intro exI [of _ a] exI [of _ u]) auto
  ultimately show ?thesis unfolding descent_inv_def q_def [symmetric] by blast
qed

lemma square_dvd_prime:
  assumes p: "isprime p" and d: "0 < d" "d * d dvd p"
  shows "d = 1"
proof -
  have p1: "1 < p" using p by (simp add: isprime_def)
  have "d dvd p" using d(2) by (rule dvd_mult_left)
  then have "d = 1 \<or> d = p" using p d(1) unfolding isprime_iff by blast
  moreover have "d \<noteq> p"
  proof
    assume "d = p"
    with d(2) have "p * p dvd p * 1" by simp
    then have "p dvd 1" using p1 by (simp only: dvd_mult_cancel_left) simp
    with p1 show False by (auto dest: zdvd_imp_le)
  qed
  ultimately show ?thesis by simp
qed

lemma sum_squares_coprime:
  assumes p: "isprime p" and n: "a * a + u * u = p" and a: "0 < a"
  shows "coprime a u"
proof -
  define d where "d = gcd a u"
  have d0: "0 < d" using a by (simp add: d_def gcd_pos_int)
  have "d * d dvd a * a" "d * d dvd u * u" by (simp_all add: d_def mult_dvd_mono)
  then have "d * d dvd a * a + u * u" by (rule dvd_add)
  with n have "d * d dvd p" by simp
  with p d0 have "d = 1" by (rule square_dvd_prime)
  then show ?thesis by (simp add: d_def coprime_iff_gcd_eq_1)
qed

lemma descent_inv_exit:
  assumes p: "isprime p" and p2: "p \<noteq> 2" and x: "p dvd x * x + 1"
    and inv: "descent_inv p x a b u v s" and lt: "a * a < p"
  shows "b = u \<and> a * a + b * b = p \<and> 0 < b \<and> b < a"
proof -
  from inv have i: "0 \<le> b" "b < a" "0 \<le> u" "u \<le> v" "0 < v" "u * b + v * a = p"
    "s * s = 1" "p dvd a - s * u * x" "p dvd b + s * v * x"
    by (auto simp: descent_inv_def)
  from inv obtain a0 u0 where prev: "0 \<le> u0" "0 \<le> a0" "p \<le> a0 * a0" "u0 * a + u * a0 = p"
    by (auto simp: descent_inv_def)
  have p1: "1 < p" using p by (simp add: isprime_def)
  have a0: "0 < a" using i by simp
  have "0 \<le> u0 * a" using prev(1) a0 by simp
  then have ua0: "u * a0 \<le> p" using prev(4) by linarith
  have ua0': "0 \<le> u * a0" using i(3) prev(2) by simp
  have "(u * a0) * (u * a0) \<le> p * p" using ua0 ua0' by (intro mult_mono) auto
  moreover have "(u * u) * p \<le> (u * u) * (a0 * a0)" using prev(3) by (intro mult_left_mono) auto
  ultimately have "(u * u) * p \<le> p * p" by (simp add: algebra_simps)
  then have uu: "u * u \<le> p" using p1 by (intro mult_right_le_imp_le [of "u * u" p p]) auto
  have "(s * u * x) * (s * u * x) = (s * s) * (u * x * (u * x))" by (simp add: algebra_simps)
  then have sq: "(s * u * x) * (s * u * x) = u * x * (u * x)" using i(7) by simp
  have "(a - s * u * x) * (a + s * u * x) + u * u * (x * x + 1) =
      a * a - (s * u * x) * (s * u * x) + u * x * (u * x) + u * u"
    by (simp add: algebra_simps)
  then have e: "a * a + u * u = (a - s * u * x) * (a + s * u * x) + u * u * (x * x + 1)"
    unfolding sq by simp
  have dv: "p dvd a * a + u * u"
    unfolding e by (rule dvd_add [OF dvd_mult2 [OF i(8)] dvd_mult [OF x]])
  have pos: "0 < a * a + u * u" using a0 by (simp add: add_pos_nonneg)
  have lt2: "a * a + u * u < p * 2" using lt uu by simp
  from dv obtain k where k: "a * a + u * u = p * k" by (rule dvdE)
  have "0 < k" using pos p1 unfolding k by (simp add: zero_less_mult_iff)
  moreover have "k < 2" using lt2 p1 unfolding k by (simp only: mult_less_cancel_left_pos)
  ultimately have "k = 1" by simp
  with k have n: "a * a + u * u = p" by simp
  have cop: "coprime a u" using p n a0 by (rule sum_squares_coprime)
  have u0: "0 < u"
  proof (rule ccontr)
    assume "\<not> 0 < u"
    with i(3) have "u = 0" by simp
    with n have "a * a dvd p" by simp
    with p a0 have "a = 1" by (rule square_dvd_prime)
    with n \<open>u = 0\<close> p1 show False by simp
  qed
  have neq: "a \<noteq> u"
  proof
    assume "a = u"
    with cop have "a = 1" using a0 by simp
    with n \<open>a = u\<close> p2 show False by simp
  qed
  have bu: "b = u"
  proof (cases "u < a")
    case True
    have "a * (v - a) = u * (u - b)" using n i(6) by (simp add: algebra_simps)
    then have "a dvd u * (u - b)" by (metis dvd_triv_left)
    then have "a dvd u - b" using cop by (simp add: coprime_dvd_mult_right_iff)
    moreover have "\<bar>u - b\<bar> < a" using True i(1,2) u0 by linarith
    ultimately have "u - b = 0" by (rule small_multiple_zero)
    then show ?thesis by simp
  next
    case False
    with neq have au: "a < u" by simp
    have "0 < a * a" using a0 by simp
    with n have uup: "u * u < p" by linarith
    have ua: "u < a0"
    proof (rule ccontr)
      assume "\<not> u < a0"
      then have "a0 * a0 \<le> u * u" using prev(2) by (intro mult_mono) auto
      with uup prev(3) show False by linarith
    qed
    have eq: "a * (a - u0) = u * (a0 - u)" using n prev(4) by (simp add: algebra_simps)
    have "0 < u * (a0 - u)" using u0 ua by simp
    then have "0 < a * (a - u0)" using eq by simp
    then have d0: "0 < a - u0" using a0 by (simp add: zero_less_mult_iff)
    have "u dvd a * (a - u0)" unfolding eq by simp
    moreover have "coprime u a" using cop by (simp add: coprime_commute)
    ultimately have "u dvd a - u0" by (simp add: coprime_dvd_mult_right_iff)
    moreover have "\<bar>a - u0\<bar> < u" using d0 au prev(1) by linarith
    ultimately have "a - u0 = 0" by (rule small_multiple_zero)
    with d0 show ?thesis by simp
  qed
  with n u0 i(2) show ?thesis by simp
qed

lemma descent_from_inv:
  assumes p: "isprime p" and p2: "p \<noteq> 2" and x: "0 < x" "x < p" "p dvd x * x + 1"
  shows "descent_inv p x a b u v s \<Longrightarrow>
    (\<exists>a' b'. descent p a b = Inr (a', b') \<and> a' * a' + b' * b' = p \<and> 0 < b' \<and> b' < a') \<and>
    (\<forall>d \<in> set (descent_divisors p a b). 0 < d \<and> d \<le> b) \<and>
    sorted_wrt (>) (descent_divisors p a b)"
proof (induction "nat \<bar>b\<bar>" arbitrary: a b u v s rule: less_induct)
  case less
  from less.prems have a0: "0 \<le> a" by (simp add: descent_inv_def)
  show ?case
  proof (cases "p \<le> a * a")
    case True
    then have ge: "ge_sqrt a p" using a0 by (simp add: ge_sqrt_def)
    have b: "0 < b" using p x(1,2) less.prems True by (rule descent_inv_divisor)
    have inv': "descent_inv p x b (a mod b) v (u + (a div b) * v) (- s)"
      using less.prems True b by (rule descent_inv_step)
    have "nat \<bar>a mod b\<bar> < nat \<bar>b\<bar>" using b by (simp add: abs_mod_less)
    from less.hyps [OF this inv']
    have IH: "\<exists>a' b'. descent p b (a mod b) = Inr (a', b') \<and> a' * a' + b' * b' = p \<and> 0 < b' \<and> b' < a'"
      "\<forall>d \<in> set (descent_divisors p b (a mod b)). 0 < d \<and> d \<le> a mod b"
      "sorted_wrt (>) (descent_divisors p b (a mod b))"
      by auto
    have e1: "descent p a b = descent p b (a mod b)"
      using ge b by (subst descent.simps) simp
    have e2: "descent_divisors p a b = b # descent_divisors p b (a mod b)"
      using ge b by (subst descent_divisors.simps) simp
    have m: "a mod b < b" using b by simp
    have "\<forall>d \<in> set (descent_divisors p b (a mod b)). d < b"
      using IH(2) m by fastforce
    then show ?thesis unfolding e1 e2 using IH b by auto
  next
    case False
    then have lt: "a * a < p" by simp
    then have nge: "\<not> ge_sqrt a p" by (simp add: ge_sqrt_def)
    have "b = u \<and> a * a + b * b = p \<and> 0 < b \<and> b < a"
      using p p2 x(3) less.prems lt by (rule descent_inv_exit)
    then have r: "a * a + b * b = p" "0 < b" "b < a" by blast+
    have e1: "descent p a b = Inr (a, b)" using nge by (subst descent.simps) simp
    have e2: "descent_divisors p a b = []" using nge by (subst descent_divisors.simps) simp
    show ?thesis unfolding e1 e2 using r by simp
  qed
qed

lemma prime_representation:
  assumes p: "isprime p" and p4: "p mod 4 = 1" and g: "quadratic_nonresidue g p"
  defines "x \<equiv> g ^ nat ((p - 1) div 4) mod p"
  shows "(\<exists>a b. descent p p x = Inr (a, b) \<and> a * a + b * b = p \<and> 0 < b \<and> b < a) \<and>
    (\<forall>d \<in> set (descent_divisors p p x). 0 < d \<and> d \<le> x) \<and>
    sorted_wrt (>) (descent_divisors p p x)"
proof -
  have x: "p dvd x * x + 1" "0 < x" "x < p"
    unfolding x_def using p p4 g by (rule sqrt_minus_one)+
  have p1: "1 < p" using p by (simp add: isprime_def)
  have p2: "p \<noteq> 2" using p4 by auto
  have "descent_inv p x p x 0 1 (- 1)" using p1 x(2,3) by (rule descent_inv_init)
  with p p2 x(2,3,1) show ?thesis by (rule descent_from_inv)
qed

text \<open>
  C10: for a prime \<open>p \<equiv> 1 (mod 4)\<close> and a quadratic non-residue \<open>g\<close> of \<open>p\<close>, the seed
  \<open>x = g ^ ((p - 1) div 4) mod p\<close> has \<open>0 < x < p\<close> and is coprime to \<open>p\<close>; the loop started at
  \<open>(p, x)\<close> returns a pair, so it ends and raises no \<^verbatim>\<open>ZeroDivisionError\<close>; every divisor it
  uses is positive, the divisors decrease strictly, and the remainder it stops at is
  positive and below \<open>sqrt p\<close>.
\<close>

theorem descent_terminates_safely:
  assumes "isprime p" and "p mod 4 = 1" and "quadratic_nonresidue g p"
  shows "0 < g ^ nat ((p - 1) div 4) mod p \<and> g ^ nat ((p - 1) div 4) mod p < p \<and>
    coprime p (g ^ nat ((p - 1) div 4) mod p) \<and>
    list_all (\<lambda>d. 0 < d) (descent_divisors p p (g ^ nat ((p - 1) div 4) mod p)) \<and>
    sorted_wrt (>) (descent_divisors p p (g ^ nat ((p - 1) div 4) mod p)) \<and>
    (\<exists>a b. descent p p (g ^ nat ((p - 1) div 4) mod p) = Inr (a, b) \<and> 0 < a \<and> \<not> ge_sqrt a p)"
proof -
  define x where "x = g ^ nat ((p - 1) div 4) mod p"
  have x: "p dvd x * x + 1" "0 < x" "x < p"
    unfolding x_def using assms by (rule sqrt_minus_one)+
  have "\<not> p dvd x" using x(2,3) by (intro range_not_dvd) auto
  with assms(1) have cop: "coprime p x" by (rule isprime_coprime)
  from prime_representation [OF assms]
  obtain a b where ab: "descent p p x = Inr (a, b)" "a * a + b * b = p" "0 < b" "b < a"
    and dv: "\<forall>d \<in> set (descent_divisors p p x). 0 < d \<and> d \<le> x"
    and st: "sorted_wrt (>) (descent_divisors p p x)"
    unfolding x_def by blast
  have "0 < b * b" using ab(3) by simp
  with ab(2) have "a * a < p" by linarith
  then have "\<not> ge_sqrt a p" by (simp add: ge_sqrt_def)
  moreover have "0 < a" using ab(3,4) by simp
  ultimately have "\<exists>a b. descent p p x = Inr (a, b) \<and> 0 < a \<and> \<not> ge_sqrt a p"
    using ab(1) by blast
  moreover have "list_all (\<lambda>d. 0 < d) (descent_divisors p p x)"
    using dv by (simp add: list_all_iff)
  ultimately show ?thesis using x cop st unfolding x_def by blast
qed

theorem descent_terminates_safely_witness:
  "isprime 13 \<and> (13::int) mod 4 = 1 \<and> quadratic_nonresidue 2 13 \<and>
   (0 < (2::int) ^ nat ((13 - 1) div 4) mod 13 \<and> (2::int) ^ nat ((13 - 1) div 4) mod 13 < 13 \<and>
    coprime (13::int) (2 ^ nat ((13 - 1) div 4) mod 13) \<and>
    list_all (\<lambda>d. 0 < d) (descent_divisors 13 13 (2 ^ nat ((13 - 1) div 4) mod 13)) \<and>
    sorted_wrt (>) (descent_divisors 13 13 (2 ^ nat ((13 - 1) div 4) mod 13)) \<and>
    (\<exists>a b. descent 13 13 (2 ^ nat ((13 - 1) div 4) mod 13) = Inr (a, b) \<and> 0 < a \<and>
      \<not> ge_sqrt a 13))"
proof -
  have h1: "isprime 13" by code_simp
  have h2: "(13::int) mod 4 = 1" by simp
  have h3: "quadratic_nonresidue 2 13" by code_simp
  show ?thesis by (intro conjI h1 h2 h3 descent_terminates_safely [OF h1 h2 h3])
qed




end
